theory Spec2Isabelle
  imports Complex_Main "HOL-Library.AList" "HOL-Library.Multiset"
begin

section \<open>Blended trending subreddits: the data model\<close>

text \<open>
  The script \<^verbatim>\<open>scripts/gen_trending_subriff.py\<close> queries a web API once per
  (size filter, sort period) pair, folds the records of every answer into one table keyed by
  subreddit name, scores every entry and selects at most 30 names.

  Modelling decisions.
  \<^item> A JSON object is read with \<^verbatim>\<open>dict.get\<close>, so every key of a record may be
    missing, may hold \<^verbatim>\<open>null\<close>, or may hold a value of the type the API
    delivers for it (a string for the name, numbers for the counts and growth rates,
    booleans for the flags).
  \<^item> Python numbers are unbounded integers and floats. Integers are \<open>int\<close>; the growth
    rates and the score are rationals, that is, float arithmetic is read as exact
    arithmetic (no rounding, no NaN).
  \<^item> A Python \<^verbatim>\<open>dict\<close> keeps insertion order and phase 2 sorts its values
    stably, so the table is an association list in insertion order.
  \<^item> \<^verbatim>\<open>requests.get\<close> is the environment: a function from the two query
    parameters that vary to what the HTTP exchange yields.
\<close>

datatype 'a field = Missing | Null | Val 'a

record raw_record =
  displayName :: "string field"
  subscribers_json :: "int field"
  dailyGrowthPercentage :: "rat field"
  weeklyGrowthPercentage :: "rat field"
  isNsfw :: "bool field"
  internal_IsNsfw :: "bool field"
  suggested_Internal_IsNsfw :: "bool field"

record SubredditScore =
  name :: string
  subscribers :: "int option"
  daily_growth_pct :: rat
  weekly_growth_pct :: rat
  daily_rank :: "int option"
  weekly_rank :: "int option"
  size_filter :: string
  appearances :: int
  composite_score :: rat

definition SIZE_FILTERS :: "string list" where
  "SIZE_FILTERS = [''medium-small'', ''medium'', ''large'', ''xlarge'']"

definition SORT_PERIODS :: "string list" where
  "SORT_PERIODS = [''daily'', ''weekly'']"

definition RESULTS_PER_QUERY :: int where
  "RESULTS_PER_QUERY = 20"

definition TOP_PER_SIZE_CATEGORY :: nat where
  "TOP_PER_SIZE_CATEGORY = 5"

definition FINAL_OUTPUT_LIMIT :: nat where
  "FINAL_OUTPUT_LIMIT = 30"

section \<open>The fetcher\<close>

text \<open>
  What one HTTP exchange yields: the transport fails (connection error, timeout), or a
  response arrives with a status and a body. The body is not JSON, or it is JSON but no
  object (a list, a string, a number, null), or it is a JSON object whose
  \<^verbatim>\<open>subreddits\<close> key is missing, null or a list of records.
\<close>

datatype body = NotJson | JsonOther | JsonObject "raw_record list field"

datatype http_result = TransportFailure | Response bool body

datatype error = RequestException | HTTPError | JSONDecodeError | AttributeError | TypeError

text \<open>
  \<^verbatim>\<open>fetch_subreddits\<close>: \<^verbatim>\<open>requests.get\<close> raises on a transport failure,
  \<^verbatim>\<open>raise_for_status\<close> raises on a status that is not a success,
  \<^verbatim>\<open>response.json()\<close> raises on a body that is not JSON, and
  \<^verbatim>\<open>data.get("subreddits", [])\<close> raises on data that has no \<^verbatim>\<open>get\<close>
  (no object); on an object it returns the empty list for a missing key,
  \<^verbatim>\<open>None\<close> for null (the result \<open>None\<close> below), the list otherwise.
\<close>

definition fetch_subreddits ::
  "(string \<Rightarrow> string \<Rightarrow> http_result) \<Rightarrow> string \<Rightarrow> string \<Rightarrow> error + raw_record list option" where
  "fetch_subreddits http_get sz sort_by =
     (case http_get sz sort_by of
        TransportFailure \<Rightarrow> Inl RequestException
      | Response status_ok b \<Rightarrow>
          if \<not> status_ok then Inl HTTPError
          else (case b of
                  NotJson \<Rightarrow> Inl JSONDecodeError
                | JsonOther \<Rightarrow> Inl AttributeError
                | JsonObject subs \<Rightarrow>
                    (case subs of
                       Missing \<Rightarrow> Inr (Some [])
                     | Null \<Rightarrow> Inr None
                     | Val rs \<Rightarrow> Inr (Some rs))))"

section \<open>The scorer\<close>

text \<open>Python's \<^verbatim>\<open>max(a, b)\<close> and \<^verbatim>\<open>min(a, b)\<close> keep the first argument
  unless the second is strictly greater (smaller).\<close>

definition py_max :: "'a::linorder \<Rightarrow> 'a \<Rightarrow> 'a" where
  "py_max a b = (if a < b then b else a)"

definition py_min :: "'a::linorder \<Rightarrow> 'a \<Rightarrow> 'a" where
  "py_min a b = (if b < a then b else a)"

definition calculate_composite_score :: "SubredditScore \<Rightarrow> rat" where
  "calculate_composite_score sub =
     (let score0 = 0;
          score1 = (case daily_rank sub of
                      None \<Rightarrow> score0
                    | Some r \<Rightarrow> score0 + of_int (py_max 0 (RESULTS_PER_QUERY - r)));
          score2 = (case weekly_rank sub of
                      None \<Rightarrow> score1
                    | Some r \<Rightarrow> score1 + of_int (py_max 0 (RESULTS_PER_QUERY - r)));
          score3 = (if appearances sub \<ge> 2
                    then score2 + of_int (15 * (appearances sub - 1))
                    else score2);
          daily_contrib = py_min (daily_growth_pct sub) 100 / 10;
          weekly_contrib = py_min (weekly_growth_pct sub) 500 / 50
      in score3 + (daily_contrib + weekly_contrib))"

section \<open>The aggregator\<close>

record agg_state =
  subreddit_data :: "(string \<times> SubredditScore) list"
  by_size_category :: "string \<Rightarrow> string list"

definition init_state :: agg_state where
  "init_state = \<lparr>subreddit_data = [], by_size_category = (\<lambda>_. [])\<rparr>"

text \<open>\<^verbatim>\<open>sub.get(flag)\<close> used as a condition: missing and null are falsy.\<close>

definition truthy :: "bool field \<Rightarrow> bool" where
  "truthy f = (case f of Val b \<Rightarrow> b | _ \<Rightarrow> False)"

text \<open>\<^verbatim>\<open>sub.get(key, 0) or 0\<close>: missing, null and zero all give 0.\<close>

definition growth_or_0 :: "rat field \<Rightarrow> rat" where
  "growth_or_0 f = (case f of Val x \<Rightarrow> (if x = 0 then 0 else x) | _ \<Rightarrow> 0)"

text \<open>\<^verbatim>\<open>sub.get("subscribers", 0)\<close>: the default only replaces a missing key.\<close>

definition subscribers_of :: "int field \<Rightarrow> int option" where
  "subscribers_of f = (case f of Missing \<Rightarrow> Some 0 | Null \<Rightarrow> None | Val n \<Rightarrow> Some n)"

text \<open>\<^verbatim>\<open>sub.get("displayName", "")\<close> followed by \<^verbatim>\<open>if not name\<close>: a missing
  key, null and the empty string are all skipped; the empty string stands for the three.\<close>

definition name_of :: "raw_record \<Rightarrow> string" where
  "name_of sub = (case displayName sub of Val s \<Rightarrow> s | _ \<Rightarrow> [])"

definition is_nsfw :: "raw_record \<Rightarrow> bool" where
  "is_nsfw sub \<longleftrightarrow>
     truthy (isNsfw sub) \<or> truthy (internal_IsNsfw sub) \<or> truthy (suggested_Internal_IsNsfw sub)"

text \<open>The dataclass constructor call of a first sighting; the fields not passed take
  their defaults.\<close>

definition new_entry :: "string \<Rightarrow> string \<Rightarrow> raw_record \<Rightarrow> SubredditScore" where
  "new_entry nm sz sub =
     \<lparr>name = nm,
      subscribers = subscribers_of (subscribers_json sub),
      daily_growth_pct = growth_or_0 (dailyGrowthPercentage sub),
      weekly_growth_pct = growth_or_0 (weeklyGrowthPercentage sub),
      daily_rank = None,
      weekly_rank = None,
      size_filter = sz,
      appearances = 0,
      composite_score = 0\<rparr>"

definition update_rank :: "int option \<Rightarrow> int \<Rightarrow> int option" where
  "update_rank cur rank =
     (case cur of None \<Rightarrow> Some rank | Some r \<Rightarrow> if rank < r then Some rank else Some r)"

text \<open>The mutations of one sighting on the entry of the name (source lines 130 to 149).\<close>

definition update_entry :: "string \<Rightarrow> int \<Rightarrow> raw_record \<Rightarrow> SubredditScore \<Rightarrow> SubredditScore" where
  "update_entry sort_by rank sub entry =
     (let e1 = entry\<lparr>appearances := appearances entry + 1\<rparr>;
          e2 = (if sort_by = ''daily''
                then e1\<lparr>daily_rank := update_rank (daily_rank e1) rank\<rparr>
                else e1\<lparr>weekly_rank := update_rank (weekly_rank e1) rank\<rparr>);
          e3 = e2\<lparr>daily_growth_pct :=
                    py_max (daily_growth_pct e2) (growth_or_0 (dailyGrowthPercentage sub))\<rparr>
      in e3\<lparr>weekly_growth_pct :=
               py_max (weekly_growth_pct e3) (growth_or_0 (weeklyGrowthPercentage sub))\<rparr>)"

text \<open>
  The body of the inner loop for one record. A name that is not yet a key gets a fresh
  entry at the end of the table and is appended to the list of the current size filter;
  then the entry of the name, fresh or old, is updated in place.
\<close>

definition process_record :: "string \<Rightarrow> string \<Rightarrow> int \<Rightarrow> raw_record \<Rightarrow> agg_state \<Rightarrow> agg_state" where
  "process_record sz sort_by rank sub st =
     (let nm = name_of sub in
      if nm = [] then st
      else if is_nsfw sub then st
      else
        (case map_of (subreddit_data st) nm of
           None \<Rightarrow>
             \<lparr>subreddit_data =
                subreddit_data st @ [(nm, update_entry sort_by rank sub (new_entry nm sz sub))],
              by_size_category =
                (by_size_category st)(sz := by_size_category st sz @ [nm])\<rparr>
         | Some entry \<Rightarrow>
             st\<lparr>subreddit_data :=
                  AList.update nm (update_entry sort_by rank sub entry) (subreddit_data st)\<rparr>))"

text \<open>\<^verbatim>\<open>for rank, sub in enumerate(results)\<close>, with the rank counted from \<open>rank0\<close>.\<close>

fun process_results :: "string \<Rightarrow> string \<Rightarrow> int \<Rightarrow> raw_record list \<Rightarrow> agg_state \<Rightarrow> agg_state" where
  "process_results sz sort_by rank0 [] st = st"
| "process_results sz sort_by rank0 (sub # subs) st =
     process_results sz sort_by (rank0 + 1) subs (process_record sz sort_by rank0 sub st)"

text \<open>
  One turn of the two nested query loops. Every exception raised inside
  \<^verbatim>\<open>fetch_subreddits\<close> is caught by \<^verbatim>\<open>except Exception\<close> and the loop
  continues with the state as it was. \<^verbatim>\<open>enumerate(results)\<close> stands after the
  \<^verbatim>\<open>try\<close> block: when the fetch returned \<^verbatim>\<open>None\<close> it raises a
  \<^verbatim>\<open>TypeError\<close> that nothing catches.
\<close>

definition process_query ::
  "(string \<Rightarrow> string \<Rightarrow> http_result) \<Rightarrow> string \<Rightarrow> string \<Rightarrow> agg_state \<Rightarrow> error + agg_state" where
  "process_query http_get sz sort_by st =
     (case fetch_subreddits http_get sz sort_by of
        Inl e \<Rightarrow> Inr st
      | Inr None \<Rightarrow> Inl TypeError
      | Inr (Some results) \<Rightarrow> Inr (process_results sz sort_by 0 results st))"

text \<open>A \<^verbatim>\<open>for\<close> loop whose body may raise: the first error ends the loop.\<close>

fun for_each :: "('a \<Rightarrow> 's \<Rightarrow> error + 's) \<Rightarrow> 'a list \<Rightarrow> 's \<Rightarrow> error + 's" where
  "for_each body [] st = Inr st"
| "for_each body (x # xs) st =
     (case body x st of Inl e \<Rightarrow> Inl e | Inr st' \<Rightarrow> for_each body xs st')"

definition aggregate :: "(string \<Rightarrow> string \<Rightarrow> http_result) \<Rightarrow> error + agg_state" where
  "aggregate http_get =
     for_each (\<lambda>sz. for_each (\<lambda>sort_by. process_query http_get sz sort_by) SORT_PERIODS)
       SIZE_FILTERS init_state"

section \<open>The selector\<close>

text \<open>The scoring pass over the values of the table; keys and order stay.\<close>

definition score_all :: "(string \<times> SubredditScore) list \<Rightarrow> (string \<times> SubredditScore) list" where
  "score_all data =
     map (\<lambda>(k, entry). (k, entry\<lparr>composite_score := calculate_composite_score entry\<rparr>)) data"

text \<open>
  \<^verbatim>\<open>sorted(xs, key=..., reverse=True)\<close> and \<^verbatim>\<open>list.sort\<close> with the same
  arguments: descending by key, and stable, elements with equal keys keeping their order.
  That is the stable ascending sort by the negated key.
\<close>

definition sorted_desc :: "('a \<Rightarrow> rat) \<Rightarrow> 'a list \<Rightarrow> 'a list" where
  "sorted_desc key xs = sort_key (\<lambda>x. - key x) xs"

text \<open>
  \<^verbatim>\<open>subreddit_data[n].composite_score\<close>. The subscript raises \<^verbatim>\<open>KeyError\<close>
  on a name that is no key; the model gives 0 there, and lemma \<open>category_names_are_keys\<close>
  below shows that the selector only looks up names that are keys.
\<close>

definition score_in :: "(string \<times> SubredditScore) list \<Rightarrow> string \<Rightarrow> rat" where
  "score_in data n = (case map_of data n of Some entry \<Rightarrow> composite_score entry | None \<Rightarrow> 0)"

record sel_state =
  selected :: "string set"
  final_list :: "(string \<times> rat) list"

definition select_name :: "string \<Rightarrow> rat \<Rightarrow> sel_state \<Rightarrow> sel_state" where
  "select_name nm sc s =
     \<lparr>selected = insert nm (selected s), final_list = final_list s @ [(nm, sc)]\<rparr>"

text \<open>Phase 1, the inner loop over the first names of one sorted category.\<close>

fun take_top :: "(string \<times> SubredditScore) list \<Rightarrow> string list \<Rightarrow> sel_state \<Rightarrow> sel_state" where
  "take_top data [] s = s"
| "take_top data (nm # nms) s =
     take_top data nms
       (if nm \<notin> selected s then select_name nm (score_in data nm) s else s)"

definition phase1_category ::
  "(string \<times> SubredditScore) list \<Rightarrow> (string \<Rightarrow> string list) \<Rightarrow> string \<Rightarrow> sel_state \<Rightarrow> sel_state" where
  "phase1_category data by_size sz s =
     (let category_subs = by_size sz;
          sorted_category = sorted_desc (score_in data) category_subs
      in take_top data (take TOP_PER_SIZE_CATEGORY sorted_category) s)"

definition phase1 :: "(string \<times> SubredditScore) list \<Rightarrow> (string \<Rightarrow> string list) \<Rightarrow> sel_state" where
  "phase1 data by_size =
     fold (phase1_category data by_size) SIZE_FILTERS \<lparr>selected = {}, final_list = []\<rparr>"

text \<open>Phase 2, the loop over all entries sorted by score, with its \<^verbatim>\<open>break\<close>.\<close>

fun fill :: "SubredditScore list \<Rightarrow> sel_state \<Rightarrow> sel_state" where
  "fill [] s = s"
| "fill (entry # entries) s =
     (if name entry \<notin> selected s then
        (let s' = select_name (name entry) (composite_score entry) s in
         if length (final_list s') \<ge> FINAL_OUTPUT_LIMIT then s' else fill entries s')
      else fill entries s)"

definition phase2 :: "(string \<times> SubredditScore) list \<Rightarrow> sel_state \<Rightarrow> sel_state" where
  "phase2 data s =
     (let remaining_slots = int FINAL_OUTPUT_LIMIT - int (length (final_list s)) in
      if remaining_slots > 0
      then fill (sorted_desc composite_score (map snd data)) s
      else s)"

text \<open>Everything after the query loops: scoring, the two phases, the final sort and the
  projection to the names.\<close>

definition select :: "agg_state \<Rightarrow> string list" where
  "select st =
     (let data = score_all (subreddit_data st);
          s1 = phase1 data (by_size_category st);
          s2 = phase2 data s1
      in map fst (sorted_desc snd (final_list s2)))"

definition generate_blended_trending ::
  "(string \<Rightarrow> string \<Rightarrow> http_result) \<Rightarrow> error + string list" where
  "generate_blended_trending http_get =
     (case aggregate http_get of Inl e \<Rightarrow> Inl e | Inr st \<Rightarrow> Inr (select st))"

section \<open>Notions used to state the properties\<close>

text \<open>The states the aggregator can be in: the initial one, and any state after
  processing one more record under any query.\<close>

inductive reachable :: "agg_state \<Rightarrow> bool" where
  reachable_init: "reachable init_state"
| reachable_step: "reachable st \<Longrightarrow> reachable (process_record sz sort_by rank sub st)"

text \<open>A record qualifies when the aggregator does not skip it.\<close>

definition qualifying :: "raw_record \<Rightarrow> bool" where
  "qualifying sub \<longleftrightarrow> name_of sub \<noteq> [] \<and> \<not> is_nsfw sub"

text \<open>The records a query contributes: those of a successful fetch, none otherwise.\<close>

definition query_results :: "(string \<Rightarrow> string \<Rightarrow> http_result) \<Rightarrow> string \<Rightarrow> string \<Rightarrow> raw_record list" where
  "query_results http_get sz sort_by =
     (case fetch_subreddits http_get sz sort_by of Inr (Some rs) \<Rightarrow> rs | _ \<Rightarrow> [])"

text \<open>All records of all queries, in the order the loops read them.\<close>

definition all_records :: "(string \<Rightarrow> string \<Rightarrow> http_result) \<Rightarrow> raw_record list" where
  "all_records http_get =
     concat (map (\<lambda>sz. concat (map (\<lambda>sort_by. query_results http_get sz sort_by) SORT_PERIODS))
               SIZE_FILTERS)"

definition sightings :: "(string \<Rightarrow> string \<Rightarrow> http_result) \<Rightarrow> string \<Rightarrow> nat" where
  "sightings http_get nm =
     length (filter (\<lambda>sub. qualifying sub \<and> name_of sub = nm) (all_records http_get))"

definition observed_names :: "(string \<Rightarrow> string \<Rightarrow> http_result) \<Rightarrow> string set" where
  "observed_names http_get = name_of ` {sub \<in> set (all_records http_get). qualifying sub}"


text \<open>The size filter recorded for a name, if the name has an entry.\<close>

definition recorded_size :: "agg_state \<Rightarrow> string \<Rightarrow> string option" where
  "recorded_size st nm = map_option size_filter (map_of (subreddit_data st) nm)"

text \<open>The composite score the scoring pass stores for a name.\<close>

definition final_score :: "agg_state \<Rightarrow> string \<Rightarrow> rat" where
  "final_score st nm = score_in (score_all (subreddit_data st)) nm"

section \<open>Auxiliary notions of the proofs\<close>

text \<open>The appearance count recorded for a name, 0 for a name without an entry.\<close>

definition appearances_of :: "agg_state \<Rightarrow> string \<Rightarrow> int" where
  "appearances_of st nm =
     (case map_of (subreddit_data st) nm of None \<Rightarrow> 0 | Some e \<Rightarrow> appearances e)"

text \<open>The selection state is consistent: the selected set holds the names of the output
  list, and no name stands twice in it.\<close>

definition sel_ok :: "sel_state \<Rightarrow> bool" where
  "sel_ok s \<longleftrightarrow> selected s = fst ` set (final_list s) \<and> distinct (map fst (final_list s))"

text \<open>The names phase 1 takes from one category, the names it takes in all, and the
  output list before the final sort.\<close>

definition top_of :: "(string \<times> SubredditScore) list \<Rightarrow> (string \<Rightarrow> string list) \<Rightarrow> string \<Rightarrow> string list" where
  "top_of data by_size sz =
     take TOP_PER_SIZE_CATEGORY (sorted_desc (score_in data) (by_size sz))"

definition phase1_names :: "agg_state \<Rightarrow> string list" where
  "phase1_names st =
     concat (map (top_of (score_all (subreddit_data st)) (by_size_category st)) SIZE_FILTERS)"

definition selection :: "agg_state \<Rightarrow> (string \<times> rat) list" where
  "selection st =
     final_list (phase2 (score_all (subreddit_data st))
       (phase1 (score_all (subreddit_data st)) (by_size_category st)))"

section \<open>Concrete inputs\<close>

text \<open>Three records and an environment in which four queries answer: one with two
  records, one with a flagged record followed by a known name that stands twice on the
  page, one with a body that is not JSON and one with a failing status; the other four
  fail in transport. \<open>example_state\<close> is the state the two successful queries build,
  \<open>null_get\<close> the same environment with one answer whose \<^verbatim>\<open>subreddits\<close> is null,
  \<open>final_entry_a\<close> the entry of \<open>a\<close> at the end.\<close>

definition record_a :: raw_record where
  "record_a =
     \<lparr>displayName = Val ''a'', subscribers_json = Val 1000,
      dailyGrowthPercentage = Val 50, weeklyGrowthPercentage = Missing,
      isNsfw = Val False, internal_IsNsfw = Null, suggested_Internal_IsNsfw = Missing\<rparr>"

definition record_b :: raw_record where
  "record_b =
     \<lparr>displayName = Val ''b'', subscribers_json = Missing,
      dailyGrowthPercentage = Val 10, weeklyGrowthPercentage = Null,
      isNsfw = Missing, internal_IsNsfw = Missing, suggested_Internal_IsNsfw = Missing\<rparr>"

definition record_flagged :: raw_record where
  "record_flagged =
     \<lparr>displayName = Val ''c'', subscribers_json = Val 5,
      dailyGrowthPercentage = Val 900, weeklyGrowthPercentage = Val 900,
      isNsfw = Null, internal_IsNsfw = Val True, suggested_Internal_IsNsfw = Missing\<rparr>"

definition example_get :: "string \<Rightarrow> string \<Rightarrow> http_result" where
  "example_get sz sort_by =
     (if sz = ''medium'' \<and> sort_by = ''daily''
        then Response True (JsonObject (Val [record_a, record_b]))
      else if sz = ''large'' \<and> sort_by = ''weekly''
        then Response True (JsonObject (Val [record_flagged, record_a, record_a]))
      else if sz = ''xlarge'' \<and> sort_by = ''daily''
        then Response True NotJson
      else if sz = ''xlarge'' \<and> sort_by = ''weekly''
        then Response False NotJson
      else TransportFailure)"

definition example_state :: agg_state where
  "example_state =
     process_results ''large'' ''weekly'' 0 [record_flagged, record_a, record_a]
       (process_results ''medium'' ''daily'' 0 [record_a, record_b] init_state)"


definition final_entry_a :: SubredditScore where
  "final_entry_a =
    \<lparr>name = ''a'', subscribers = Some 1000, daily_growth_pct = 50,
       weekly_growth_pct = 0, daily_rank = Some 0, weekly_rank = Some 1,
       size_filter = ''medium'', appearances = 3, composite_score = 0\<rparr>"

text \<open>An environment in which every daily query answers with six names of its own, the
  later ones with the higher growth, the state the four queries build and the list the
  run returns.\<close>

definition mk_record :: "string \<Rightarrow> rat \<Rightarrow> raw_record" where
  "mk_record nm g =
     \<lparr>displayName = Val nm, subscribers_json = Missing,
      dailyGrowthPercentage = Val g, weeklyGrowthPercentage = Missing,
      isNsfw = Val False, internal_IsNsfw = Missing, suggested_Internal_IsNsfw = Missing\<rparr>"

definition six_records :: "char \<Rightarrow> raw_record list" where
  "six_records c =
     [mk_record [c, CHR ''1''] 0, mk_record [c, CHR ''2''] 20, mk_record [c, CHR ''3''] 40,
      mk_record [c, CHR ''4''] 60, mk_record [c, CHR ''5''] 80, mk_record [c, CHR ''6''] 100]"

definition big_get :: "string \<Rightarrow> string \<Rightarrow> http_result" where
  "big_get sz sort_by =
     (if sort_by = ''daily'' then
        Response True (JsonObject (Val (six_records
          (if sz = ''medium-small'' then CHR ''s''
           else if sz = ''medium'' then CHR ''m''
           else if sz = ''large'' then CHR ''l''
           else CHR ''x''))))
      else TransportFailure)"

definition big_state :: agg_state where
  "big_state =
     process_results ''xlarge'' ''daily'' 0 (six_records CHR ''x'')
      (process_results ''large'' ''daily'' 0 (six_records CHR ''l'')
        (process_results ''medium'' ''daily'' 0 (six_records CHR ''m'')
          (process_results ''medium-small'' ''daily'' 0 (six_records CHR ''s'') init_state)))"

definition big_output :: "string list" where
  "big_output =
     [''s6'', ''m6'', ''l6'', ''x6'', ''s5'', ''m5'', ''l5'', ''x5'', ''s4'',
      ''m4'', ''l4'', ''x4'', ''s3'', ''m3'', ''l3'', ''x3'', ''s2'', ''m2'',
      ''l2'', ''x2'', ''s1'', ''m1'', ''l1'', ''x1'']"

text \<open>The state after the first sighting of \<open>a\<close>, and an entry seen once in each
  period at rank 0 with no growth.\<close>

definition state_a :: agg_state where
  "state_a = process_record ''medium'' ''daily'' 0 record_a init_state"

definition entry_a :: SubredditScore where
  "entry_a = update_entry ''daily'' 0 record_a (new_entry ''a'' ''medium'' record_a)"


section \<open>Properties of the scorer\<close>



section \<open>Properties of one aggregation step\<close>

lemma process_record_skip:
  "\<not> qualifying sub \<Longrightarrow> process_record sz sort_by rank sub st = st"
  by (auto simp: process_record_def qualifying_def Let_def)

text \<open>The entry a name has after a step: the updated entry for the name of a qualifying
  record (updated from a fresh entry when the name was no key), the old one otherwise.\<close>

lemma process_record_lookup:
  "map_of (subreddit_data (process_record sz sort_by rank sub st)) nm =
     (if qualifying sub \<and> name_of sub = nm
      then Some (update_entry sort_by rank sub
                  (case map_of (subreddit_data st) nm of
                     None \<Rightarrow> new_entry nm sz sub | Some entry \<Rightarrow> entry))
      else map_of (subreddit_data st) nm)"
  by (auto simp: process_record_def qualifying_def Let_def update_conv' map_add_def
      split: option.splits)

lemma update_entry_frame:
  "name (update_entry sort_by rank sub e) = name e"
  "subscribers (update_entry sort_by rank sub e) = subscribers e"
  "size_filter (update_entry sort_by rank sub e) = size_filter e"
  "composite_score (update_entry sort_by rank sub e) = composite_score e"
  "appearances (update_entry sort_by rank sub e) = appearances e + 1"
  by (simp_all add: update_entry_def Let_def)

lemma update_entry_ranks:
  "daily_rank (update_entry sort_by rank sub e) =
     (if sort_by = ''daily'' then update_rank (daily_rank e) rank else daily_rank e)"
  "weekly_rank (update_entry sort_by rank sub e) =
     (if sort_by = ''daily'' then weekly_rank e else update_rank (weekly_rank e) rank)"
  by (simp_all add: update_entry_def Let_def)

lemma update_entry_growth:
  "daily_growth_pct (update_entry sort_by rank sub e) =
     max (daily_growth_pct e) (growth_or_0 (dailyGrowthPercentage sub))"
  "weekly_growth_pct (update_entry sort_by rank sub e) =
     max (weekly_growth_pct e) (growth_or_0 (weeklyGrowthPercentage sub))"
  by (simp_all add: update_entry_def Let_def py_max_def max_def)

text \<open>The facts that evaluate a step on the concrete inputs.\<close>

lemmas eval_step = state_a_def entry_a_def process_record_lookup qualifying_def name_of_def
  record_a_def record_b_def is_nsfw_def truthy_def init_state_def update_entry_ranks
  update_entry_growth update_entry_frame new_entry_def update_rank_def growth_or_0_def
  subscribers_of_def

text \<open>
  Claim C7. A record with any of the three NSFW flags truthy causes no mutation at all:
  the state after the step is the state before it, so the table, every category list and
  every appearance count are as they were, whatever the other fields of the record hold.
\<close>

theorem nsfw_record_no_mutation:
  "truthy (isNsfw sub) \<or> truthy (internal_IsNsfw sub) \<or> truthy (suggested_Internal_IsNsfw sub)
   \<Longrightarrow> process_record sz sort_by rank sub st = st"
  by (simp add: process_record_def is_nsfw_def Let_def)

theorem nsfw_record_no_mutation_witness:
  "(truthy (isNsfw record_flagged) \<or> truthy (internal_IsNsfw record_flagged)
      \<or> truthy (suggested_Internal_IsNsfw record_flagged))
   \<and> process_record ''large'' ''weekly'' 0 record_flagged state_a = state_a"
  using nsfw_record_no_mutation [of record_flagged "''large''" "''weekly''" 0 state_a]
  by (simp add: record_flagged_def truthy_def)

text \<open>
  Claim C6. A step leaves every existing entry with ranks that did not grow and growth
  values that did not shrink. A rank changes only to the index of the record, and only
  when it was absent or larger than that index. For the name of a qualifying record each
  growth value becomes the maximum of the old value and the value of the record, a
  missing, null or zero value of the record counting as 0.
\<close>

theorem rank_growth_monotone:
  assumes "map_of (subreddit_data st) nm = Some e"
  shows "\<exists>e'. map_of (subreddit_data (process_record sz sort_by rank sub st)) nm = Some e'
     \<and> (\<forall>r. daily_rank e = Some r \<longrightarrow> (\<exists>r'. daily_rank e' = Some r' \<and> r' \<le> r))
     \<and> (\<forall>r. weekly_rank e = Some r \<longrightarrow> (\<exists>r'. weekly_rank e' = Some r' \<and> r' \<le> r))
     \<and> (daily_rank e' \<noteq> daily_rank e \<longrightarrow>
          daily_rank e' = Some rank \<and> (\<forall>r. daily_rank e = Some r \<longrightarrow> rank < r))
     \<and> (weekly_rank e' \<noteq> weekly_rank e \<longrightarrow>
          weekly_rank e' = Some rank \<and> (\<forall>r. weekly_rank e = Some r \<longrightarrow> rank < r))
     \<and> daily_growth_pct e \<le> daily_growth_pct e'
     \<and> weekly_growth_pct e \<le> weekly_growth_pct e'
     \<and> (qualifying sub \<and> name_of sub = nm \<longrightarrow>
          daily_growth_pct e' = max (daily_growth_pct e)
            (case dailyGrowthPercentage sub of Val x \<Rightarrow> x | _ \<Rightarrow> 0)
          \<and> weekly_growth_pct e' = max (weekly_growth_pct e)
            (case weeklyGrowthPercentage sub of Val x \<Rightarrow> x | _ \<Rightarrow> 0))"
  using assms
  by (auto simp: process_record_lookup update_entry_ranks update_entry_growth update_rank_def
      growth_or_0_def split: option.splits field.splits)

theorem rank_growth_monotone_witness:
  "map_of (subreddit_data state_a) ''a'' = Some entry_a
   \<and> (\<exists>e'. map_of (subreddit_data (process_record ''large'' ''weekly'' 3 record_a state_a)) ''a''
            = Some e'
        \<and> daily_rank entry_a = Some 0 \<and> daily_rank e' = Some 0
        \<and> weekly_rank entry_a = None \<and> weekly_rank e' = Some 3
        \<and> daily_growth_pct entry_a = 50 \<and> daily_growth_pct e' = 50
        \<and> weekly_growth_pct entry_a = 0 \<and> weekly_growth_pct e' = 0)"
proof -
  have h: "map_of (subreddit_data state_a) ''a'' = Some entry_a"
    by (simp add: eval_step)
  show ?thesis
    using h rank_growth_monotone [OF h, of "''large''" "''weekly''" 3 record_a]
    by (simp add: eval_step)
qed

text \<open>
  Claim C9. On a sighting of a name that already has an entry, the name, the subscriber
  count, the size filter and the stored score of the entry stay as they are, and so does
  the rank of the other sort period; this holds under every size filter of the later
  query. An entry is created with the name of the record, its subscriber count and the
  size filter of the current query.
\<close>

theorem later_sighting_frame:
  "(map_of (subreddit_data st) nm = None \<and> qualifying sub \<and> name_of sub = nm \<longrightarrow>
      (\<exists>e'. map_of (subreddit_data (process_record sz sort_by rank sub st)) nm = Some e'
         \<and> name e' = nm \<and> subscribers e' = subscribers_of (subscribers_json sub)
         \<and> size_filter e' = sz))
   \<and> (map_of (subreddit_data st) nm = Some e \<longrightarrow>
      (\<exists>e'. map_of (subreddit_data (process_record sz sort_by rank sub st)) nm = Some e'
         \<and> name e' = name e \<and> subscribers e' = subscribers e
         \<and> size_filter e' = size_filter e \<and> composite_score e' = composite_score e
         \<and> (sort_by = ''daily'' \<longrightarrow> weekly_rank e' = weekly_rank e)
         \<and> (sort_by \<noteq> ''daily'' \<longrightarrow> daily_rank e' = daily_rank e)))"
  by (simp add: process_record_lookup update_entry_frame update_entry_ranks new_entry_def)

theorem later_sighting_frame_witness:
  "map_of (subreddit_data init_state) ''a'' = None
   \<and> qualifying record_a \<and> name_of record_a = ''a''
   \<and> map_of (subreddit_data state_a) ''a'' = Some entry_a
   \<and> size_filter entry_a = ''medium'' \<and> subscribers entry_a = Some 1000
   \<and> (\<exists>e'. map_of (subreddit_data (process_record ''large'' ''weekly'' 3 record_b state_a)) ''a''
            = Some e'
        \<and> e' = entry_a)
   \<and> (\<exists>e'. map_of (subreddit_data (process_record ''large'' ''weekly'' 3 record_a state_a)) ''a''
            = Some e'
        \<and> name e' = ''a'' \<and> subscribers e' = Some 1000 \<and> size_filter e' = ''medium''
        \<and> daily_rank e' = daily_rank entry_a \<and> appearances e' = 2)"
  using later_sighting_frame [of init_state "''a''" record_a "''medium''" "''daily''" 0 entry_a]
    later_sighting_frame [of state_a "''a''" record_a "''large''" "''weekly''" 3 entry_a]
  by (simp add: eval_step)

section \<open>Invariants of the aggregator\<close>

text \<open>What one step does to the keys of the table and to the category lists, and what
  holds in every reachable state: the keys are distinct, every entry carries its key as
  name, and a name stands in the list of a category exactly when its entry records that
  category.\<close>

lemma process_record_keys:
  "map fst (subreddit_data (process_record sz sort_by rank sub st)) =
     (if qualifying sub \<and> map_of (subreddit_data st) (name_of sub) = None
      then map fst (subreddit_data st) @ [name_of sub]
      else map fst (subreddit_data st))"
  by (auto simp: process_record_def qualifying_def Let_def update_keys map_of_eq_None_iff
      split: option.splits dest: map_of_SomeD)

lemma process_record_category:
  "by_size_category (process_record sz sort_by rank sub st) sz' =
     (if qualifying sub \<and> map_of (subreddit_data st) (name_of sub) = None \<and> sz' = sz
      then by_size_category st sz @ [name_of sub]
      else by_size_category st sz')"
  by (auto simp: process_record_def qualifying_def Let_def split: option.splits)

lemma reachable_keys_distinct:
  "reachable st \<Longrightarrow> distinct (map fst (subreddit_data st))"
proof (induction rule: reachable.induct)
  case reachable_init
  show ?case by (simp add: init_state_def)
next
  case (reachable_step st sz sort_by rank sub)
  then show ?case
    by (auto simp: process_record_keys map_of_eq_None_iff)
qed

lemma reachable_name_is_key:
  "reachable st \<Longrightarrow> map_of (subreddit_data st) nm = Some e \<Longrightarrow> name e = nm"
proof (induction arbitrary: nm e rule: reachable.induct)
  case reachable_init
  then show ?case by (simp add: init_state_def)
next
  case (reachable_step st sz sort_by rank sub)
  then show ?case
    by (auto simp: process_record_lookup update_entry_frame new_entry_def
        split: if_splits option.splits)
qed

lemma reachable_category_iff:
  "reachable st \<Longrightarrow>
   nm \<in> set (by_size_category st sz) \<longleftrightarrow>
     (\<exists>e. map_of (subreddit_data st) nm = Some e \<and> size_filter e = sz)"
proof (induction arbitrary: nm sz rule: reachable.induct)
  case reachable_init
  show ?case by (simp add: init_state_def)
next
  case (reachable_step st sz0 sort_by rank sub)
  show ?case
    by (auto simp: process_record_lookup process_record_category update_entry_frame
        new_entry_def reachable_step.IH split: option.splits)
qed

lemma reachable_category_distinct:
  "reachable st \<Longrightarrow> distinct (by_size_category st sz)"
proof (induction arbitrary: sz rule: reachable.induct)
  case reachable_init
  show ?case by (simp add: init_state_def)
next
  case (reachable_step st sz0 sort_by rank sub)
  then show ?case
    by (auto simp: process_record_category reachable_category_iff)
qed

lemma reachable_categories_disjoint:
  "reachable st \<Longrightarrow> sz \<noteq> sz' \<Longrightarrow>
   set (by_size_category st sz) \<inter> set (by_size_category st sz') = {}"
  by (auto simp: reachable_category_iff)

lemma category_names_are_keys:
  "reachable st \<Longrightarrow> nm \<in> set (by_size_category st sz) \<Longrightarrow>
   \<exists>e. map_of (subreddit_data st) nm = Some e"
  by (auto simp: reachable_category_iff)

lemma process_results_reachable:
  "reachable st \<Longrightarrow> reachable (process_results sz sort_by rank0 subs st)"
  by (induction subs arbitrary: rank0 st) (auto intro: reachable_step)

lemma for_each_invariant:
  assumes "\<And>x s s'. P s \<Longrightarrow> body x s = Inr s' \<Longrightarrow> P s'"
  shows "P s \<Longrightarrow> for_each body xs s = Inr s' \<Longrightarrow> P s'"
proof (induction xs arbitrary: s)
  case Nil
  then show ?case by simp
next
  case (Cons x xs)
  then show ?case
    by (auto split: sum.splits intro: assms)
qed

lemma process_query_reachable:
  "reachable st \<Longrightarrow> process_query http_get sz sort_by st = Inr st' \<Longrightarrow> reachable st'"
  by (auto simp: process_query_def process_results_reachable split: sum.splits option.splits)

lemma aggregate_reachable:
  "aggregate http_get = Inr st \<Longrightarrow> reachable st"
  unfolding aggregate_def
  by (erule for_each_invariant [rotated 2], erule for_each_invariant [rotated 2])
     (auto intro: process_query_reachable reachable_init)

section \<open>The aggregator and the records of the queries\<close>

lemma process_record_appearances:
  "appearances_of (process_record sz sort_by rank sub st) nm =
     appearances_of st nm + (if qualifying sub \<and> name_of sub = nm then 1 else 0)"
  by (simp add: appearances_of_def process_record_lookup update_entry_frame new_entry_def
      split: option.splits)

lemma process_results_appearances:
  "appearances_of (process_results sz sort_by rank0 subs st) nm =
     appearances_of st nm
       + int (length (filter (\<lambda>sub. qualifying sub \<and> name_of sub = nm) subs))"
  by (induction subs arbitrary: rank0 st) (simp_all add: process_record_appearances)

lemma process_record_key_set:
  "fst ` set (subreddit_data (process_record sz sort_by rank sub st)) =
     fst ` set (subreddit_data st) \<union> (if qualifying sub then {name_of sub} else {})"
  using process_record_keys [of sz sort_by rank sub st, THEN arg_cong, of set]
  by (auto simp: map_of_eq_None_iff simp flip: set_map split: if_splits)

lemma process_results_key_set:
  "fst ` set (subreddit_data (process_results sz sort_by rank0 subs st)) =
     fst ` set (subreddit_data st) \<union> name_of ` {sub \<in> set subs. qualifying sub}"
proof (induction subs arbitrary: rank0 st)
  case Nil
  show ?case by simp
next
  case (Cons sub subs)
  have "{x \<in> set (sub # subs). qualifying x}
      = (if qualifying sub then {sub} else {}) \<union> {x \<in> set subs. qualifying x}"
    by auto
  then show ?case
    by (simp add: Cons.IH process_record_key_set image_Un Un_assoc)
qed

lemma process_query_Inr:
  "process_query http_get sz sort_by st = Inr st' \<Longrightarrow>
   st' = process_results sz sort_by 0 (query_results http_get sz sort_by) st"
  by (auto simp: process_query_def query_results_def split: sum.splits option.splits)

lemma for_each_sum:
  fixes m :: "'s \<Rightarrow> int"
  assumes "\<And>x s s'. body x s = Inr s' \<Longrightarrow> m s' = m s + d x"
  shows "for_each body xs s = Inr s' \<Longrightarrow> m s' = m s + sum_list (map d xs)"
proof (induction xs arbitrary: s)
  case Nil
  then show ?case by simp
next
  case (Cons x xs)
  then show ?case
    by (auto split: sum.splits dest!: assms)
qed

lemma for_each_union:
  assumes "\<And>x s s'. body x s = Inr s' \<Longrightarrow> m s' = m s \<union> d x"
  shows "for_each body xs s = Inr s' \<Longrightarrow> m s' = m s \<union> \<Union> (d ` set xs)"
proof (induction xs arbitrary: s)
  case Nil
  then show ?case by simp
next
  case (Cons x xs)
  then show ?case
    by (auto split: sum.splits dest!: assms)
qed

lemma aggregate_appearances:
  assumes "aggregate http_get = Inr st"
  shows "appearances_of st nm = int (sightings http_get nm)"
proof -
  let ?P = "\<lambda>sub. qualifying sub \<and> name_of sub = nm"
  let ?d = "\<lambda>sz sort_by. int (length (filter ?P (query_results http_get sz sort_by)))"
  have inner: "appearances_of s' nm = appearances_of s nm + sum_list (map (?d sz) SORT_PERIODS)"
    if "for_each (\<lambda>sort_by. process_query http_get sz sort_by) SORT_PERIODS s = Inr s'"
    for sz s s'
    using that
    by (rule for_each_sum [rotated]) (auto dest!: process_query_Inr simp: process_results_appearances)
  have "appearances_of st nm = appearances_of init_state nm
      + sum_list (map (\<lambda>sz. sum_list (map (?d sz) SORT_PERIODS)) SIZE_FILTERS)"
    using assms unfolding aggregate_def
    by (rule for_each_sum [rotated]) (rule inner)
  also have "appearances_of init_state nm = 0"
    by (simp add: appearances_of_def init_state_def)
  also have "0 + sum_list (map (\<lambda>sz. sum_list (map (?d sz) SORT_PERIODS)) SIZE_FILTERS)
      = int (sightings http_get nm)"
    by (simp add: sightings_def all_records_def SIZE_FILTERS_def SORT_PERIODS_def)
  finally show ?thesis .
qed

lemma aggregate_keys:
  assumes "aggregate http_get = Inr st"
  shows "fst ` set (subreddit_data st) = observed_names http_get"
proof -
  let ?d = "\<lambda>sz sort_by. name_of ` {sub \<in> set (query_results http_get sz sort_by). qualifying sub}"
  let ?m = "\<lambda>s. fst ` set (subreddit_data s)"
  have inner: "?m s' = ?m s \<union> \<Union> (?d sz ` set SORT_PERIODS)"
    if "for_each (\<lambda>sort_by. process_query http_get sz sort_by) SORT_PERIODS s = Inr s'"
    for sz s s'
    using that
    by (rule for_each_union [rotated])
       (drule process_query_Inr, simp only: process_results_key_set)
  have "?m st = ?m init_state \<union> \<Union> ((\<lambda>sz. \<Union> (?d sz ` set SORT_PERIODS)) ` set SIZE_FILTERS)"
    using assms unfolding aggregate_def
    by (rule for_each_union [rotated]) (rule inner)
  also have "\<dots> = observed_names http_get"
    by (auto simp: observed_names_def all_records_def init_state_def)
  finally show ?thesis .
qed

section \<open>Errors of the query loops\<close>





section \<open>Properties of the selector\<close>

subsection \<open>The descending sort\<close>

lemma set_sorted_desc [simp]: "set (sorted_desc key xs) = set xs"
  by (simp add: sorted_desc_def)

lemma length_sorted_desc [simp]: "length (sorted_desc key xs) = length xs"
  by (simp add: sorted_desc_def)

lemma distinct_sorted_desc [simp]: "distinct (sorted_desc key xs) = distinct xs"
  by (simp add: sorted_desc_def)

lemma mset_sorted_desc: "mset (sorted_desc key xs) = mset xs"
  by (simp add: sorted_desc_def)

lemma distinct_map_sorted_desc:
  "distinct (map f (sorted_desc key xs)) = distinct (map f xs)"
proof -
  have "mset (map f (sorted_desc key xs)) = mset (map f xs)"
    by (simp add: mset_sorted_desc)
  then show ?thesis
    by (rule mset_eq_imp_distinct_iff)
qed


subsection \<open>Phase 1\<close>

lemma take_top_fresh:
  "distinct nms \<Longrightarrow> set nms \<inter> selected s = {} \<Longrightarrow>
   take_top data nms s =
     \<lparr>selected = selected s \<union> set nms,
      final_list = final_list s @ map (\<lambda>n. (n, score_in data n)) nms\<rparr>"
proof (induction nms arbitrary: s)
  case Nil
  show ?case by simp
next
  case (Cons nm nms)
  have "take_top data (nm # nms) s = take_top data nms (select_name nm (score_in data nm) s)"
    using Cons.prems by simp
  also have "\<dots> = \<lparr>selected = selected (select_name nm (score_in data nm) s) \<union> set nms,
      final_list = final_list (select_name nm (score_in data nm) s)
        @ map (\<lambda>n. (n, score_in data n)) nms\<rparr>"
    using Cons.prems by (intro Cons.IH) (auto simp: select_name_def)
  finally show ?case
    by (simp add: select_name_def)
qed

lemma top_of_subset: "set (top_of data by_size sz) \<subseteq> set (by_size sz)"
  unfolding top_of_def by (metis set_sorted_desc set_take_subset)

lemma top_of_distinct: "distinct (by_size sz) \<Longrightarrow> distinct (top_of data by_size sz)"
  unfolding top_of_def by simp

lemma top_of_length: "length (top_of data by_size sz) = min TOP_PER_SIZE_CATEGORY (length (by_size sz))"
  unfolding top_of_def by (simp add: min.commute)

lemma phase1_fold:
  "distinct (concat (map by_size cs)) \<Longrightarrow>
   (\<forall>sz \<in> set cs. set (by_size sz) \<inter> selected s = {}) \<Longrightarrow>
   fold (phase1_category data by_size) cs s =
     \<lparr>selected = selected s \<union> \<Union> (set ` top_of data by_size ` set cs),
      final_list = final_list s
        @ concat (map (\<lambda>sz. map (\<lambda>n. (n, score_in data n)) (top_of data by_size sz)) cs)\<rparr>"
proof (induction cs arbitrary: s)
  case Nil
  show ?case by simp
next
  case (Cons c cs)
  let ?s1 = "phase1_category data by_size c s"
  have d: "distinct (by_size c)" and dcs: "distinct (concat (map by_size cs))"
    and disj: "\<forall>sz \<in> set cs. set (by_size c) \<inter> set (by_size sz) = {}"
    using Cons.prems(1) by auto
  have fresh: "set (top_of data by_size c) \<inter> selected s = {}"
    using Cons.prems(2) top_of_subset [of data by_size c] by auto
  have s1: "?s1 = \<lparr>selected = selected s \<union> set (top_of data by_size c),
      final_list = final_list s @ map (\<lambda>n. (n, score_in data n)) (top_of data by_size c)\<rparr>"
    unfolding phase1_category_def Let_def top_of_def [symmetric]
    using top_of_distinct [where by_size = by_size and sz = c, OF d] fresh
    by (rule take_top_fresh)
  have "\<forall>sz \<in> set cs. set (by_size sz) \<inter> selected ?s1 = {}"
    using Cons.prems(2) disj top_of_subset [of data by_size c] by (auto simp: s1)
  from Cons.IH [OF dcs this] show ?case
    by (simp add: s1 Un_assoc)
qed

lemma SIZE_FILTERS_distinct: "distinct SIZE_FILTERS"
  by (simp add: SIZE_FILTERS_def)

lemma reachable_categories_distinct_concat:
  assumes "reachable st" "distinct cs"
  shows "distinct (concat (map (by_size_category st) cs))"
  using assms(2)
proof (induction cs)
  case Nil
  show ?case by simp
next
  case (Cons c cs)
  then show ?case
    by (auto simp: reachable_category_distinct [OF assms(1)] reachable_category_iff [OF assms(1)])
qed

lemma phase1_result:
  assumes "reachable st"
  shows "phase1 data (by_size_category st) =
     \<lparr>selected = \<Union> (set ` top_of data (by_size_category st) ` set SIZE_FILTERS),
      final_list = concat (map (\<lambda>sz. map (\<lambda>n. (n, score_in data n))
                     (top_of data (by_size_category st) sz)) SIZE_FILTERS)\<rparr>"
  unfolding phase1_def
  by (subst phase1_fold)
     (simp_all add: reachable_categories_distinct_concat [OF assms SIZE_FILTERS_distinct])

subsection \<open>Phase 2\<close>

lemma sel_ok_select_name:
  "sel_ok s \<Longrightarrow> nm \<notin> selected s \<Longrightarrow> sel_ok (select_name nm sc s)"
  by (auto simp: sel_ok_def select_name_def)

lemma fill_ok: "sel_ok s \<Longrightarrow> sel_ok (fill es s)"
  by (induction es arbitrary: s) (auto simp: Let_def sel_ok_select_name)

lemma fill_length:
  "length (final_list s) < FINAL_OUTPUT_LIMIT \<Longrightarrow>
   length (final_list (fill es s)) \<le> FINAL_OUTPUT_LIMIT"
proof (induction es arbitrary: s)
  case Nil
  then show ?case by simp
next
  case (Cons e es)
  show ?case
  proof (cases "name e \<in> selected s")
    case True
    then show ?thesis using Cons by simp
  next
    case False
    let ?s' = "select_name (name e) (composite_score e) s"
    show ?thesis
    proof (cases "length (final_list ?s') \<ge> FINAL_OUTPUT_LIMIT")
      case True
      then have "length (final_list ?s') = FINAL_OUTPUT_LIMIT"
        using Cons.prems by (simp add: select_name_def)
      then show ?thesis using False by (simp add: Let_def)
    next
      case False2: False
      then have "length (final_list (fill es ?s')) \<le> FINAL_OUTPUT_LIMIT"
        by (intro Cons.IH) simp
      then show ?thesis using False False2 by (simp add: Let_def)
    qed
  qed
qed

lemma fill_keeps: "set (final_list s) \<subseteq> set (final_list (fill es s))"
proof (induction es arbitrary: s)
  case Nil
  show ?case by simp
next
  case (Cons e es)
  have "set (final_list s) \<subseteq> set (final_list (select_name (name e) (composite_score e) s))"
    by (auto simp: select_name_def)
  then show ?case
    using Cons.IH [of s] Cons.IH [of "select_name (name e) (composite_score e) s"]
    by (auto simp: Let_def)
qed

lemma fill_members:
  "x \<in> set (final_list (fill es s)) \<Longrightarrow>
   x \<in> set (final_list s) \<or> (\<exists>e \<in> set es. x = (name e, composite_score e))"
proof (induction es arbitrary: s)
  case Nil
  then show ?case by simp
next
  case (Cons e es)
  then show ?case
    by (fastforce simp: Let_def select_name_def split: if_splits)
qed

lemma phase2_ok: "sel_ok s \<Longrightarrow> sel_ok (phase2 data s)"
  by (simp add: phase2_def Let_def fill_ok)

lemma phase2_length:
  "length (final_list s) \<le> FINAL_OUTPUT_LIMIT \<Longrightarrow>
   length (final_list (phase2 data s)) \<le> FINAL_OUTPUT_LIMIT"
  by (simp add: phase2_def Let_def fill_length)

lemma phase2_keeps: "set (final_list s) \<subseteq> set (final_list (phase2 data s))"
  by (simp add: phase2_def Let_def fill_keeps)

lemma phase2_members:
  "x \<in> set (final_list (phase2 data s)) \<Longrightarrow>
   x \<in> set (final_list s) \<or> (\<exists>e \<in> snd ` set data. x = (name e, composite_score e))"
  by (auto simp: phase2_def Let_def dest!: fill_members split: if_splits)

subsection \<open>The scoring pass\<close>

lemma score_all_keys [simp]: "map fst (score_all data) = map fst data"
  by (simp add: score_all_def case_prod_unfold comp_def)

lemma score_all_lookup:
  "map_of (score_all data) nm =
     map_option (\<lambda>e. e\<lparr>composite_score := calculate_composite_score e\<rparr>) (map_of data nm)"
  by (induction data) (auto simp: score_all_def)


lemma scored_entry_score:
  assumes "reachable st" "e \<in> snd ` set (score_all (subreddit_data st))"
  shows "score_in (score_all (subreddit_data st)) (name e) = composite_score e
     \<and> name e \<in> fst ` set (subreddit_data st)"
proof -
  from assms(2) obtain k where k: "(k, e) \<in> set (score_all (subreddit_data st))"
    by auto
  have "distinct (map fst (score_all (subreddit_data st)))"
    using reachable_keys_distinct [OF assms(1)] by simp
  with k have l: "map_of (score_all (subreddit_data st)) k = Some e"
    by simp
  then obtain e0 where e0: "map_of (subreddit_data st) k = Some e0"
    and e: "e = e0\<lparr>composite_score := calculate_composite_score e0\<rparr>"
    by (auto simp: score_all_lookup)
  have "name e = k"
    using reachable_name_is_key [OF assms(1) e0] e by simp
  moreover have "k \<in> fst ` set (subreddit_data st)"
    using e0 by (auto dest: map_of_SomeD intro: rev_image_eqI)
  ultimately show ?thesis
    using l by (simp add: score_in_def)
qed

subsection \<open>The selection as a whole\<close>

lemma select_selection: "select st = map fst (sorted_desc snd (selection st))"
  by (simp add: select_def selection_def Let_def)

lemma phase1_final_list:
  "reachable st \<Longrightarrow>
   map fst (final_list (phase1 (score_all (subreddit_data st)) (by_size_category st)))
     = phase1_names st"
  by (simp add: phase1_result phase1_names_def map_concat comp_def)

lemma distinct_concat_top:
  "distinct (concat (map by_size cs)) \<Longrightarrow> distinct (concat (map (top_of data by_size) cs))"
proof (induction cs)
  case Nil
  show ?case by simp
next
  case (Cons c cs)
  then show ?case
    using top_of_subset [of data by_size]
    by (auto simp: top_of_distinct) blast
qed

lemma phase1_names_distinct: "reachable st \<Longrightarrow> distinct (phase1_names st)"
  unfolding phase1_names_def
  by (intro distinct_concat_top reachable_categories_distinct_concat SIZE_FILTERS_distinct)

lemma concat_top_length:
  "length (concat (map (top_of data by_size) cs)) \<le> TOP_PER_SIZE_CATEGORY * length cs"
proof (induction cs)
  case Nil
  show ?case by simp
next
  case (Cons c cs)
  have "length (top_of data by_size c) \<le> TOP_PER_SIZE_CATEGORY"
    by (simp add: top_of_length)
  with Cons show ?case by simp
qed

lemma phase1_names_length: "length (phase1_names st) \<le> 20"
  using concat_top_length [of "score_all (subreddit_data st)" "by_size_category st" SIZE_FILTERS]
  by (simp add: phase1_names_def) (simp add: SIZE_FILTERS_def TOP_PER_SIZE_CATEGORY_def)

lemma phase1_ok:
  assumes "reachable st"
  shows "sel_ok (phase1 (score_all (subreddit_data st)) (by_size_category st))"
proof -
  let ?s = "phase1 (score_all (subreddit_data st)) (by_size_category st)"
  have "map fst (final_list ?s) = phase1_names st"
    by (rule phase1_final_list [OF assms])
  moreover have "selected ?s = set (phase1_names st)"
    by (simp add: phase1_result [OF assms] phase1_names_def)
  ultimately show ?thesis
    using phase1_names_distinct [OF assms] by (simp add: sel_ok_def flip: set_map)
qed

lemma selection_distinct: "reachable st \<Longrightarrow> distinct (map fst (selection st))"
  using phase2_ok [OF phase1_ok] by (simp add: selection_def sel_ok_def)

lemma selection_length: "reachable st \<Longrightarrow> length (selection st) \<le> FINAL_OUTPUT_LIMIT"
proof -
  assume r: "reachable st"
  have "length (map fst (final_list (phase1 (score_all (subreddit_data st)) (by_size_category st)))) \<le> 20"
    using phase1_names_length [of st] by (simp only: phase1_final_list [OF r])
  then show ?thesis
    unfolding selection_def by (intro phase2_length) (simp add: FINAL_OUTPUT_LIMIT_def)
qed

lemma selection_phase1: "reachable st \<Longrightarrow> set (phase1_names st) \<subseteq> fst ` set (selection st)"
proof -
  assume r: "reachable st"
  have "set (phase1_names st) = fst ` set (final_list (phase1 (score_all (subreddit_data st)) (by_size_category st)))"
    by (simp add: phase1_final_list [OF r, symmetric])
  also have "\<dots> \<subseteq> fst ` set (selection st)"
    unfolding selection_def by (intro image_mono phase2_keeps)
  finally show ?thesis .
qed

lemma selection_member:
  assumes "reachable st" "(n, sc) \<in> set (selection st)"
  shows "sc = final_score st n \<and> n \<in> fst ` set (subreddit_data st)"
proof -
  let ?data = "score_all (subreddit_data st)"
  from assms(2) consider
    (p1) "(n, sc) \<in> set (final_list (phase1 ?data (by_size_category st)))"
  | (p2) e where "e \<in> snd ` set ?data" "(n, sc) = (name e, composite_score e)"
    unfolding selection_def by (auto dest!: phase2_members)
  then show ?thesis
  proof cases
    case p1
    then obtain sz where sz: "n \<in> set (top_of ?data (by_size_category st) sz)"
      and sc: "sc = score_in ?data n"
      by (auto simp: phase1_result [OF assms(1)])
    from sz have "n \<in> set (by_size_category st sz)"
      using top_of_subset by blast
    then obtain e where "map_of (subreddit_data st) n = Some e"
      using category_names_are_keys [OF assms(1)] by blast
    then have "n \<in> fst ` set (subreddit_data st)"
      by (auto dest: map_of_SomeD intro: rev_image_eqI)
    then show ?thesis using sc by (simp add: final_score_def)
  next
    case p2
    then show ?thesis
      using scored_entry_score [OF assms(1) p2(1)] by (simp add: final_score_def)
  qed
qed

lemma select_distinct: "reachable st \<Longrightarrow> distinct (select st)"
  by (simp add: select_selection distinct_map_sorted_desc selection_distinct)

lemma select_set: "set (select st) = fst ` set (selection st)"
  by (simp add: select_selection)

lemma select_length: "length (select st) = length (selection st)"
  by (simp add: select_selection)

lemma generate_Inr:
  "generate_blended_trending http_get = Inr out \<Longrightarrow>
   \<exists>st. aggregate http_get = Inr st \<and> out = select st"
  by (auto simp: generate_blended_trending_def split: sum.splits)

section \<open>The concrete inputs evaluated\<close>

lemma example_aggregate: "aggregate example_get = Inr example_state"
  by (simp add: aggregate_def SIZE_FILTERS_def SORT_PERIODS_def process_query_def
      fetch_subreddits_def example_get_def example_state_def)

lemma example_data: "subreddit_data example_state = 
  [(''a'',
    \<lparr>name = ''a'', subscribers = Some 1000, daily_growth_pct = 50,
       weekly_growth_pct = 0, daily_rank = Some 0, weekly_rank = Some 1,
       size_filter = ''medium'', appearances = 3, composite_score = 0\<rparr>),
   (''b'',
    \<lparr>name = ''b'', subscribers = Some 0, daily_growth_pct = 10,
       weekly_growth_pct = 0, daily_rank = Some 1, weekly_rank = None,
       size_filter = ''medium'', appearances = 1, composite_score = 0\<rparr>)]"
  by (simp add: example_state_def process_record_def Let_def eval_step record_flagged_def update_entry_def py_max_def)

lemma example_categories: "by_size_category example_state = (\<lambda>_. [])(''medium'' := [''a'', ''b''])"
  by (simp add: example_state_def process_record_def Let_def eval_step record_flagged_def update_entry_def py_max_def)

lemma example_select: "select example_state = [''a'', ''b'']"
  by (simp add: select_def Let_def example_data example_categories score_all_def calculate_composite_score_def py_max_def py_min_def
      RESULTS_PER_QUERY_def phase1_def phase1_category_def SIZE_FILTERS_def sorted_desc_def score_in_def
      TOP_PER_SIZE_CATEGORY_def select_name_def phase2_def FINAL_OUTPUT_LIMIT_def)

lemma example_generate: "generate_blended_trending example_get = Inr [''a'', ''b'']"
  by (simp add: generate_blended_trending_def example_aggregate example_select)

lemma big_aggregate: "aggregate big_get = Inr big_state"
  by (simp add: aggregate_def SIZE_FILTERS_def SORT_PERIODS_def process_query_def
      fetch_subreddits_def big_get_def big_state_def)

lemma big_categories:
  "by_size_category big_state ''medium-small'' = [''s1'', ''s2'', ''s3'', ''s4'', ''s5'', ''s6'']"
  "by_size_category big_state ''medium'' = [''m1'', ''m2'', ''m3'', ''m4'', ''m5'', ''m6'']"
  "by_size_category big_state ''large'' = [''l1'', ''l2'', ''l3'', ''l4'', ''l5'', ''l6'']"
  "by_size_category big_state ''xlarge'' = [''x1'', ''x2'', ''x3'', ''x4'', ''x5'', ''x6'']"
  by (simp_all add: big_state_def six_records_def mk_record_def process_record_category
      process_record_lookup qualifying_def name_of_def is_nsfw_def truthy_def init_state_def)

lemma big_select:
  "select big_state =
     [''s6'', ''m6'', ''l6'', ''x6'', ''s5'', ''m5'', ''l5'', ''x5'', ''s4'',
      ''m4'', ''l4'', ''x4'', ''s3'', ''m3'', ''l3'', ''x3'', ''s2'', ''m2'',
      ''l2'', ''x2'', ''s1'', ''m1'', ''l1'', ''x1'']"
  by code_simp

lemma big_generate: "generate_blended_trending big_get = Inr big_output"
  by (simp add: generate_blended_trending_def big_aggregate big_select big_output_def)

section \<open>Properties of a run\<close>

text \<open>
  Claim C10. A step appends a name to a category list exactly when it creates the entry
  of the name, and then to the list of the current size filter only. In every state the
  aggregator reaches, each category list is free of duplicates and two different category
  lists share no name. Hence the membership test of
  phase 1 never excludes a name: the names phase 1 puts out are, category after category
  in the fixed order, the first five names of each sorted category list, which are
  min(5, length of the list) many.
\<close>

theorem categories_disjoint_phase1_exact:
  assumes "reachable st"
  shows "(\<forall>sz'. by_size_category (process_record sz sort_by rank sub st) sz' =
             (if qualifying sub \<and> map_of (subreddit_data st) (name_of sub) = None \<and> sz' = sz
              then by_size_category st sz @ [name_of sub]
              else by_size_category st sz'))
     \<and> (\<forall>sz. distinct (by_size_category st sz))
     \<and> (\<forall>sz sz'. sz \<noteq> sz' \<longrightarrow>
           set (by_size_category st sz) \<inter> set (by_size_category st sz') = {})
     \<and> map fst (final_list (phase1 (score_all (subreddit_data st)) (by_size_category st)))
         = concat (map (\<lambda>sz. take TOP_PER_SIZE_CATEGORY
               (sorted_desc (score_in (score_all (subreddit_data st))) (by_size_category st sz)))
             SIZE_FILTERS)
     \<and> (\<forall>sz. length (take TOP_PER_SIZE_CATEGORY
               (sorted_desc (score_in (score_all (subreddit_data st))) (by_size_category st sz)))
           = min 5 (length (by_size_category st sz)))"
proof (intro conjI allI impI)
  show "by_size_category (process_record sz sort_by rank sub st) sz' =
             (if qualifying sub \<and> map_of (subreddit_data st) (name_of sub) = None \<and> sz' = sz
              then by_size_category st sz @ [name_of sub]
              else by_size_category st sz')" for sz'
    by (rule process_record_category)
  show "distinct (by_size_category st sz)" for sz
    by (rule reachable_category_distinct [OF assms])
  show "set (by_size_category st sz) \<inter> set (by_size_category st sz') = {}"
    if "sz \<noteq> sz'" for sz sz'
    by (rule reachable_categories_disjoint [OF assms that])
  show "map fst (final_list (phase1 (score_all (subreddit_data st)) (by_size_category st)))
         = concat (map (\<lambda>sz. take TOP_PER_SIZE_CATEGORY
               (sorted_desc (score_in (score_all (subreddit_data st))) (by_size_category st sz)))
             SIZE_FILTERS)"
    using phase1_final_list [OF assms] by (simp add: phase1_names_def top_of_def [abs_def])
  show "length (take TOP_PER_SIZE_CATEGORY
               (sorted_desc (score_in (score_all (subreddit_data st))) (by_size_category st sz)))
           = min 5 (length (by_size_category st sz))" for sz
    by (simp add: TOP_PER_SIZE_CATEGORY_def min.commute)
qed

theorem categories_disjoint_phase1_exact_witness:
  "reachable example_state
   \<and> by_size_category example_state ''medium'' = [''a'', ''b'']
   \<and> by_size_category example_state ''large'' = []
   \<and> distinct (by_size_category example_state ''medium'')
   \<and> map fst (final_list (phase1 (score_all (subreddit_data example_state)) (by_size_category example_state)))
        = [''a'', ''b'']"
proof -
  have r: "reachable example_state"
    by (rule aggregate_reachable [OF example_aggregate])
  show ?thesis
    using categories_disjoint_phase1_exact [OF r] r
    by (simp add: example_categories example_data score_all_def calculate_composite_score_def py_max_def py_min_def
      RESULTS_PER_QUERY_def SIZE_FILTERS_def sorted_desc_def score_in_def TOP_PER_SIZE_CATEGORY_def)
qed

text \<open>
  Claim C3. When a run returns, the output holds for each of the four size categories
  at least min(5, size of the category) names whose recorded size filter is that category,
  where the size of a category is the number of names recorded with it. This needs no
  assumption on the sizes; with at least five names in each category the bound is five.
\<close>

theorem diversity_guarantee:
  assumes "generate_blended_trending http_get = Inr out"
    and "aggregate http_get = Inr st"
    and "sz \<in> set SIZE_FILTERS"
  shows "min 5 (length (by_size_category st sz))
           \<le> length (filter (\<lambda>n. recorded_size st n = Some sz) out)
     \<and> length (by_size_category st sz) = card {n. recorded_size st n = Some sz}"
proof -
  have out: "out = select st"
    using assms by (simp add: generate_blended_trending_def)
  have r: "reachable st"
    by (rule aggregate_reachable [OF assms(2)])
  let ?top = "top_of (score_all (subreddit_data st)) (by_size_category st) sz"
  have cat: "set (by_size_category st sz) = {n. recorded_size st n = Some sz}"
    by (auto simp: reachable_category_iff [OF r] recorded_size_def)
  have "set ?top \<subseteq> set (phase1_names st)"
    using assms(3) by (auto simp: phase1_names_def)
  then have "set ?top \<subseteq> set out"
    using selection_phase1 [OF r] by (auto simp: out select_set)
  moreover have "set ?top \<subseteq> {n. recorded_size st n = Some sz}"
    using top_of_subset [of _ "by_size_category st" sz] by (auto simp flip: cat)
  ultimately have "set ?top \<subseteq> set (filter (\<lambda>n. recorded_size st n = Some sz) out)"
    by auto
  then have "card (set ?top) \<le> card (set (filter (\<lambda>n. recorded_size st n = Some sz) out))"
    by (intro card_mono) simp_all
  moreover have "card (set ?top) = length ?top"
    by (intro distinct_card top_of_distinct reachable_category_distinct [OF r])
  moreover have "card (set (filter (\<lambda>n. recorded_size st n = Some sz) out))
      \<le> length (filter (\<lambda>n. recorded_size st n = Some sz) out)"
    by (rule card_length)
  ultimately have "min 5 (length (by_size_category st sz))
           \<le> length (filter (\<lambda>n. recorded_size st n = Some sz) out)"
    by (simp add: top_of_length TOP_PER_SIZE_CATEGORY_def)
  moreover have "length (by_size_category st sz) = card {n. recorded_size st n = Some sz}"
    using distinct_card [OF reachable_category_distinct [OF r, of sz]] by (simp add: cat)
  ultimately show ?thesis by simp
qed

theorem diversity_guarantee_witness:
  "generate_blended_trending big_get = Inr big_output
   \<and> aggregate big_get = Inr big_state
   \<and> ''large'' \<in> set SIZE_FILTERS
   \<and> length (by_size_category big_state ''medium-small'') = 6
   \<and> length (by_size_category big_state ''medium'') = 6
   \<and> length (by_size_category big_state ''large'') = 6
   \<and> length (by_size_category big_state ''xlarge'') = 6
   \<and> 5 \<le> length (filter (\<lambda>n. recorded_size big_state n = Some ''large'') big_output)"
  using diversity_guarantee [OF big_generate big_aggregate, of "''large''"] big_generate big_aggregate
  by (simp add: big_categories SIZE_FILTERS_def)



text \<open>
  Claim C5. When a run returns, the output has at most 30 names and at most as many as
  there are distinct names of qualifying records in the answers of the successful
  queries; no name stands twice in it, and every name is one of those.
\<close>

theorem output_size_bound:
  assumes "generate_blended_trending http_get = Inr out"
  shows "length out \<le> 30 \<and> length out \<le> card (observed_names http_get)
     \<and> distinct out \<and> set out \<subseteq> observed_names http_get"
proof -
  from generate_Inr [OF assms] obtain st
    where agg: "aggregate http_get = Inr st" and out: "out = select st"
    by blast
  have r: "reachable st"
    by (rule aggregate_reachable [OF agg])
  have len: "length out \<le> 30"
    using selection_length [OF r] by (simp add: out select_length FINAL_OUTPUT_LIMIT_def)
  have d: "distinct out"
    by (simp add: out select_distinct [OF r])
  have sub: "set out \<subseteq> observed_names http_get"
    using selection_member [OF r]
    by (auto simp: out select_set simp flip: aggregate_keys [OF agg])
  have "finite (observed_names http_get)"
    by (simp add: observed_names_def)
  then have "card (set out) \<le> card (observed_names http_get)"
    using sub by (intro card_mono)
  then have "length out \<le> card (observed_names http_get)"
    using d by (simp add: distinct_card)
  with len d sub show ?thesis by simp
qed

theorem output_size_bound_witness:
  "generate_blended_trending example_get = Inr [''a'', ''b'']
   \<and> length [''a'', ''b''] \<le> card (observed_names example_get)
   \<and> set [''a'', ''b''] \<subseteq> observed_names example_get"
  using output_size_bound [OF example_generate] example_generate by simp

text \<open>
  Claim C8. When a run returns, the appearance count of every entry is the number of
  qualifying records of that name in the answers of all successful queries, every
  occurrence counted, also two of the same name on one page.
\<close>

theorem appearances_count_sightings:
  assumes "aggregate http_get = Inr st"
    and "map_of (subreddit_data st) nm = Some e"
  shows "appearances e = int (sightings http_get nm)"
  using aggregate_appearances [OF assms(1), of nm] assms(2)
  by (simp add: appearances_of_def)

theorem appearances_count_sightings_witness:
  "aggregate example_get = Inr example_state
   \<and> map_of (subreddit_data example_state) ''a'' = Some final_entry_a
   \<and> appearances final_entry_a = 3 \<and> sightings example_get ''a'' = 3"
proof -
  have l: "map_of (subreddit_data example_state) ''a'' = Some final_entry_a"
    by (simp add: example_data final_entry_a_def)
  show ?thesis
    using appearances_count_sightings [OF example_aggregate l] l example_aggregate by (simp add: final_entry_a_def)
qed




end
